theory Spec2Isabelle
  imports Complex_Main "HOL-Library.Multiset"
begin

section \<open>Text primitives used by the quote tool\<close>

text \<open>
  Python strings are sequences of code points. The model uses HOL's \<open>string\<close>, whose
  characters stand for the code points below 256; the three character classes below are
  those of CPython on that range: \<open>str.isspace\<close> (used by \<open>\s\<close>, \<open>strip\<close> and
  \<open>split\<close>), the word characters of \<open>\b\<close> (alphanumerics and the underscore) and the
  upper-case letters that \<open>lower\<close> moves.
\<close>

definition is_space :: "char \<Rightarrow> bool" where
  "is_space c = (let n = (of_char c :: nat) in
     (9 \<le> n \<and> n \<le> 13) \<or> (28 \<le> n \<and> n \<le> 32) \<or> n = 133 \<or> n = 160)"

definition is_word :: "char \<Rightarrow> bool" where
  "is_word c = (let n = (of_char c :: nat) in
     (48 \<le> n \<and> n \<le> 57) \<or> (65 \<le> n \<and> n \<le> 90) \<or> n = 95 \<or> (97 \<le> n \<and> n \<le> 122)
     \<or> n = 170 \<or> n = 178 \<or> n = 179 \<or> n = 181 \<or> n = 185 \<or> n = 186
     \<or> (188 \<le> n \<and> n \<le> 190) \<or> (192 \<le> n \<and> n \<le> 214) \<or> (216 \<le> n \<and> n \<le> 246)
     \<or> (248 \<le> n \<and> n \<le> 255))"

definition is_upper :: "char \<Rightarrow> bool" where
  "is_upper c = (let n = (of_char c :: nat) in
     (65 \<le> n \<and> n \<le> 90) \<or> (192 \<le> n \<and> n \<le> 222 \<and> n \<noteq> 215))"

text \<open>
  On both upper-case ranges the lower-case letter is 32 code points further, which is the
  same as setting bit 5 of the code point.
\<close>

definition lower_char :: "char \<Rightarrow> char" where
  "lower_char c = (if is_upper c
     then (case c of Char b0 b1 b2 b3 b4 b5 b6 b7 \<Rightarrow> Char b0 b1 b2 b3 b4 True b6 b7)
     else c)"

definition lower :: "string \<Rightarrow> string" where
  "lower s = map lower_char s"

text \<open>\<open>s.strip()\<close>: white space is removed at both ends.\<close>

definition lstrip :: "string \<Rightarrow> string" where
  "lstrip s = dropWhile is_space s"

definition rstrip :: "string \<Rightarrow> string" where
  "rstrip s = rev (dropWhile is_space (rev s))"

definition strip :: "string \<Rightarrow> string" where
  "strip s = rstrip (lstrip s)"

text \<open>\<open>s.split()\<close>: the maximal runs of characters that are not white space.\<close>

function split :: "string \<Rightarrow> string list" where
  "split s = (case dropWhile is_space s of
                [] \<Rightarrow> []
              | c # cs \<Rightarrow> (c # takeWhile (\<lambda>x. \<not> is_space x) cs)
                          # split (dropWhile (\<lambda>x. \<not> is_space x) cs))"
  by pat_completeness auto

termination
proof (relation "measure length")
  show "wf (measure length)" by simp
next
  fix s :: string and c cs
  assume d: "dropWhile is_space s = c # cs"
  have "length (dropWhile (\<lambda>x. \<not> is_space x) cs) \<le> length cs"
    by (rule length_dropWhile_le)
  moreover have "length (c # cs) \<le> length s"
    using length_dropWhile_le [of is_space s] d by simp
  ultimately show "(dropWhile (\<lambda>x. \<not> is_space x) cs, s) \<in> measure length"
    by simp
qed

declare split.simps [simp del]

text \<open>\<open>p in s\<close> on strings: \<open>p\<close> occurs in \<open>s\<close> as a contiguous substring.\<close>

fun starts_with :: "string \<Rightarrow> string \<Rightarrow> bool" where
  "starts_with [] s = True"
| "starts_with (p # ps) [] = False"
| "starts_with (p # ps) (c # cs) = (p = c \<and> starts_with ps cs)"

fun contains :: "string \<Rightarrow> string \<Rightarrow> bool" where
  "contains p [] = (p = [])"
| "contains p (c # cs) = (starts_with p (c # cs) \<or> contains p cs)"

subsection \<open>The two regular-expression substitutions\<close>

text \<open>
  \<open>re.sub(r'\bnan\b', '', text)\<close>, with or without \<open>re.IGNORECASE\<close>. The scan goes from
  left to right; \<open>pw\<close> says whether the character before the current position is a word
  character (false at the start of the text). \<open>\b\<close> holds where exactly one of the two
  neighbouring positions holds a word character. A match is deleted and the scan goes on
  behind it; otherwise one character is copied.
\<close>

definition lit :: "bool \<Rightarrow> char \<Rightarrow> char \<Rightarrow> bool" where
  "lit ic p x = (if ic then lower_char x = lower_char p else x = p)"

definition boundary :: "bool \<Rightarrow> string \<Rightarrow> bool" where
  "boundary pw s = (pw \<noteq> (case s of [] \<Rightarrow> False | c # _ \<Rightarrow> is_word c))"

fun nan_at :: "bool \<Rightarrow> bool \<Rightarrow> string \<Rightarrow> bool" where
  "nan_at ic pw (x # y # z # rest) =
     (boundary pw (x # y # z # rest) \<and> lit ic (CHR ''n'') x \<and> lit ic (CHR ''a'') y
      \<and> lit ic (CHR ''n'') z \<and> boundary (is_word z) rest)"
| "nan_at ic pw s = False"

function re_sub_nan :: "bool \<Rightarrow> bool \<Rightarrow> string \<Rightarrow> string" where
  "re_sub_nan ic pw [] = []"
| "re_sub_nan ic pw (c # cs) =
     (if nan_at ic pw (c # cs) then re_sub_nan ic True (drop 2 cs)
      else c # re_sub_nan ic (is_word c) cs)"
  by pat_completeness auto

termination
  by (relation "measure (\<lambda>(ic, pw, s). length s)") auto

text \<open>\<open>re.sub(r'\s+', ' ', text)\<close>: every maximal run of white space becomes one space.\<close>

function re_sub_ws :: "string \<Rightarrow> string" where
  "re_sub_ws [] = []"
| "re_sub_ws (c # cs) =
     (if is_space c then CHR '' '' # re_sub_ws (dropWhile is_space cs)
      else c # re_sub_ws cs)"
  by pat_completeness auto

termination
proof (relation "measure length")
  show "wf (measure length)" by simp
next
  fix c :: char and cs :: string
  show "(dropWhile is_space cs, c # cs) \<in> measure length"
    using length_dropWhile_le [of is_space cs] by simp
next
  fix c :: char and cs :: string
  show "(cs, c # cs) \<in> measure length" by simp
qed

section \<open>clean_standard_options\<close>

text \<open>
  The raw standard options of the catalogue are strings or null (\<open>None\<close>). \<open>not opt\<close>
  holds for null and for the empty string; \<open>str\<close> of a string is the string. The loop
  appends to \<open>cleaned\<close>.
\<close>

fun clean_standard_options_loop :: "string option list \<Rightarrow> string list \<Rightarrow> string list" where
  "clean_standard_options_loop [] cleaned = cleaned"
| "clean_standard_options_loop (opt # options) cleaned =
     (case opt of
        None \<Rightarrow> clean_standard_options_loop options cleaned
      | Some s \<Rightarrow>
          if s = [] then clean_standard_options_loop options cleaned
          else (let text = re_sub_nan True False s;
                    text = strip (re_sub_ws text)
                in if text \<noteq> [] then clean_standard_options_loop options (cleaned @ [text])
                   else clean_standard_options_loop options cleaned))"

definition clean_standard_options :: "string option list \<Rightarrow> string list" where
  "clean_standard_options options = clean_standard_options_loop options []"

section \<open>group_optional_options\<close>

text \<open>
  An option item is a dictionary with the keys \<open>description\<close> and \<open>price\<close>. Prices and the
  other amounts of the script are Python numbers; they are modelled as exact rationals.
  The items are objects shared between the catalogue, the list passed in and the buckets
  returned, and the function assigns to \<open>opt['description']\<close>: the model keeps the items
  in a store and the lists hold references into it.
\<close>

record OptionItem =
  description :: string
  price :: rat

type_synonym ref = nat

type_synonym store = "ref \<Rightarrow> OptionItem"

text \<open>
  The first loop. \<open>re.sub\<close> is called without flags here, and \<open>str\<close> of a string is the
  string.
\<close>

fun clean_options_loop :: "ref list \<Rightarrow> store \<Rightarrow> ref list \<Rightarrow> store \<times> ref list" where
  "clean_options_loop [] h cleaned_options = (h, cleaned_options)"
| "clean_options_loop (opt # options) h cleaned_options =
     (let h' = h(opt := (h opt)\<lparr>description :=
                 strip (re_sub_nan False False (description (h opt)))\<rparr>)
      in if description (h' opt) = [] then clean_options_loop options h' cleaned_options
         else clean_options_loop options h' (cleaned_options @ [opt]))"

text \<open>The test made on \<open>cleaned_options[0]\<close>.\<close>

definition base_price_test :: "OptionItem \<Rightarrow> bool" where
  "base_price_test first =
     (contains ''base price'' (lower (description first))
      \<or> contains ''model'' (lower (description first))
      \<or> (price first > 100000 \<and> length (split (description first)) < 3))"

text \<open>
  \<open>categories\<close> is a \<open>defaultdict(list)\<close>: a dictionary that keeps its keys in the order of
  their first insertion, and \<open>categories[k].append(opt)\<close> creates the bucket when needed.
\<close>

type_synonym categories = "(string \<times> ref list) list"

fun bucket_append :: "string \<Rightarrow> ref \<Rightarrow> categories \<Rightarrow> categories" where
  "bucket_append k opt [] = [(k, [opt])]"
| "bucket_append k opt ((k', b) # cats) =
     (if k = k' then (k', b @ [opt]) # cats else (k', b) # bucket_append k opt cats)"

text \<open>The \<open>if\<close>/\<open>elif\<close> chain of the second loop, on the lower-cased description.\<close>

definition category_of :: "string \<Rightarrow> string" where
  "category_of desc =
     (if contains ''spindle'' desc then ''Spindle Options''
      else if contains ''probe'' desc \<or> contains ''renishaw'' desc then ''Probing & Measurement''
      else if contains ''coolant'' desc then ''Coolant Systems''
      else if contains ''table'' desc \<or> contains ''pallet'' desc then ''Table & Pallet Systems''
      else if contains ''tool'' desc
              \<and> (contains ''storage'' desc \<or> contains ''magazine'' desc \<or> contains ''changer'' desc)
           then ''Tool Storage''
      else if contains ''control'' desc then ''Control Options''
      else ''Other Options'')"

fun categorize_loop :: "store \<Rightarrow> ref list \<Rightarrow> categories \<Rightarrow> categories" where
  "categorize_loop h [] cats = cats"
| "categorize_loop h (opt # options) cats =
     categorize_loop h options
       (bucket_append (category_of (lower (description (h opt)))) opt cats)"

text \<open>
  The function returns the pair \<open>(categories, base_price)\<close>; the model returns the store
  after the call as well.
\<close>

definition group_optional_options :: "ref list \<Rightarrow> store \<Rightarrow> (categories \<times> rat) \<times> store" where
  "group_optional_options options h =
     (let (h', cleaned_options) = clean_options_loop options h [];
          (base_price, cleaned_options) =
             (if cleaned_options \<noteq> [] \<and> base_price_test (h' (hd cleaned_options))
              then (price (h' (hd cleaned_options)), tl cleaned_options)
              else (0, cleaned_options))
      in ((categorize_loop h' cleaned_options [], base_price), h'))"

section \<open>The page script\<close>

text \<open>Line 114: the extracted base price is used when it is positive.\<close>

definition base_price :: "rat \<Rightarrow> rat \<Rightarrow> rat" where
  "base_price extracted_base_price catalog_base_price =
     (if extracted_base_price > 0 then extracted_base_price else catalog_base_price)"


text \<open>
  Lines 133 to 149: \<open>custom_price\<close> starts at the base price minus the discount, and every
  ticked option is appended to \<open>selected_addons\<close> and its price added. Whether the box of
  option \<open>i\<close> of a group is ticked is an input of the page.
\<close>

fun options_loop ::
  "(nat \<Rightarrow> bool) \<Rightarrow> store \<Rightarrow> nat \<Rightarrow> ref list \<Rightarrow> ref list \<times> rat \<Rightarrow> ref list \<times> rat" where
  "options_loop ticked h i [] st = st"
| "options_loop ticked h i (opt # options) (selected_addons, custom_price) =
     options_loop ticked h (Suc i) options
       (if ticked i then (selected_addons @ [opt], custom_price + price (h opt))
        else (selected_addons, custom_price))"

fun groups_loop ::
  "(string \<Rightarrow> nat \<Rightarrow> bool) \<Rightarrow> store \<Rightarrow> categories \<Rightarrow> ref list \<times> rat \<Rightarrow> ref list \<times> rat" where
  "groups_loop checkbox h [] st = st"
| "groups_loop checkbox h ((grp, options) # grouped_options) st =
     groups_loop checkbox h grouped_options (options_loop (checkbox grp) h 0 options st)"

definition custom_price ::
  "(string \<Rightarrow> nat \<Rightarrow> bool) \<Rightarrow> store \<Rightarrow> categories \<Rightarrow> rat \<Rightarrow> rat \<Rightarrow> ref list \<times> rat" where
  "custom_price checkbox h grouped_options base disc =
     groups_loop checkbox h grouped_options ([], base - disc)"

section \<open>Notions used to state and prove the properties\<close>

text \<open>
  Auxiliary notions for the proofs. \<open>nan_free ic pw s\<close>: the pattern matches at no
  position of \<open>s\<close>. \<open>single_spaced s\<close>: every white-space character of \<open>s\<close> is a
  space and no two of them are adjacent. \<open>word_end s\<close>: a word ends before \<open>s\<close>.
\<close>

primrec nan_free :: "bool \<Rightarrow> bool \<Rightarrow> string \<Rightarrow> bool" where
  "nan_free ic pw [] = True"
| "nan_free ic pw (c # cs) = (\<not> nan_at ic pw (c # cs) \<and> nan_free ic (is_word c) cs)"

primrec single_spaced :: "string \<Rightarrow> bool" where
  "single_spaced [] = True"
| "single_spaced (c # cs) =
     ((is_space c \<longrightarrow> c = CHR '' '' \<and> (case cs of [] \<Rightarrow> True | d # _ \<Rightarrow> \<not> is_space d))
      \<and> single_spaced cs)"

definition word_end :: "string \<Rightarrow> bool" where
  "word_end s = (case s of [] \<Rightarrow> True | c # _ \<Rightarrow> \<not> is_word c)"

definition starts_nonspace :: "string \<Rightarrow> bool" where
  "starts_nonspace s = (case s of [] \<Rightarrow> True | d # _ \<Rightarrow> \<not> is_space d)"

text \<open>The text that \<open>clean_standard_options\<close> computes for one non-empty string.\<close>

definition clean_text :: "string \<Rightarrow> string" where
  "clean_text s = strip (re_sub_ws (re_sub_nan True False s))"

text \<open>
  Whole words. A text splits into tokens, the maximal runs of word
  characters and the maximal runs of other characters; \<open>remove_nan_words\<close> deletes the
  tokens that spell \<open>nan\<close> (in any case when \<open>ic\<close> holds) and keeps every other one.
\<close>

function tokens :: "string \<Rightarrow> string list" where
  "tokens [] = []"
| "tokens (c # cs) =
     (c # takeWhile (\<lambda>x. is_word x = is_word c) cs)
     # tokens (dropWhile (\<lambda>x. is_word x = is_word c) cs)"
  by pat_completeness auto

termination
proof (relation "measure length")
  show "wf (measure length)" by simp
next
  fix c :: char and cs :: string
  show "(dropWhile (\<lambda>x. is_word x = is_word c) cs, c # cs) \<in> measure length"
    using length_dropWhile_le [of "\<lambda>x. is_word x = is_word c" cs] by simp
qed

definition is_nan :: "bool \<Rightarrow> string \<Rightarrow> bool" where
  "is_nan ic t = (if ic then lower t = ''nan'' else t = ''nan'')"

definition remove_nan_words :: "bool \<Rightarrow> string \<Rightarrow> string" where
  "remove_nan_words ic s = concat (filter (\<lambda>t. \<not> is_nan ic t) (tokens s))"

text \<open>
  The cleaned description that the first loop stores in an item, and the values of the
  local variables of \<open>group_optional_options\<close> after its first loop: the list
  \<open>cleaned_options\<close>, whether its first item passes the base-price test, and the list
  that goes into the second loop.
\<close>

definition clean_description :: "string \<Rightarrow> string" where
  "clean_description d = strip (re_sub_nan False False d)"

definition cleaned_options :: "ref list \<Rightarrow> store \<Rightarrow> ref list" where
  "cleaned_options options h = snd (clean_options_loop options h [])"

definition extracted :: "ref list \<Rightarrow> store \<Rightarrow> bool" where
  "extracted options h =
     (cleaned_options options h \<noteq> []
      \<and> base_price_test (fst (clean_options_loop options h []) (hd (cleaned_options options h))))"

definition remaining_options :: "ref list \<Rightarrow> store \<Rightarrow> ref list" where
  "remaining_options options h =
     (if extracted options h then tl (cleaned_options options h) else cleaned_options options h)"

text \<open>\<open>categories[k]\<close>: the bucket of a key, empty when the key is absent.\<close>

definition bucket :: "categories \<Rightarrow> string \<Rightarrow> ref list" where
  "bucket cats k = (case map_of cats k of None \<Rightarrow> [] | Some b \<Rightarrow> b)"

text \<open>
  The categorisation as a table: the rules in their order of priority, each a bucket name
  and a test on the lower-cased description; the first rule whose test holds names the
  bucket, and \<open>Other Options\<close> is the fallback.
\<close>

definition category_rules :: "(string \<times> (string \<Rightarrow> bool)) list" where
  "category_rules =
     [(''Spindle Options'', \<lambda>d. contains ''spindle'' d),
      (''Probing & Measurement'', \<lambda>d. contains ''probe'' d \<or> contains ''renishaw'' d),
      (''Coolant Systems'', \<lambda>d. contains ''coolant'' d),
      (''Table & Pallet Systems'', \<lambda>d. contains ''table'' d \<or> contains ''pallet'' d),
      (''Tool Storage'', \<lambda>d. contains ''tool'' d
          \<and> (contains ''storage'' d \<or> contains ''magazine'' d \<or> contains ''changer'' d)),
      (''Control Options'', \<lambda>d. contains ''control'' d)]"

definition spec_category :: "string \<Rightarrow> string" where
  "spec_category d =
     (case find (\<lambda>(name, test). test (lower d)) category_rules of
        Some (name, test) \<Rightarrow> name
      | None \<Rightarrow> ''Other Options'')"

text \<open>
  The cleaning step as the specification words it, for comparison with the source:
  \<open>nan\<close> is deleted in any case and wherever it occurs, word or not.
\<close>

fun spec_sub_nan :: "string \<Rightarrow> string" where
  "spec_sub_nan (x # y # z # rest) =
     (if lit True (CHR ''n'') x \<and> lit True (CHR ''a'') y \<and> lit True (CHR ''n'') z
      then spec_sub_nan rest else x # spec_sub_nan (y # z # rest))"
| "spec_sub_nan s = s"



section \<open>Properties of the text primitives\<close>

lemma space_not_word: "is_space c \<Longrightarrow> \<not> is_word c"
  by (auto simp: is_space_def is_word_def Let_def)

lemma lower_char_n: "lower_char x = CHR ''n'' \<Longrightarrow> x = CHR ''n'' \<or> x = CHR ''N''"
  by (cases x) (auto simp: lower_char_def is_upper_def Let_def split: if_splits)

lemma lower_char_a: "lower_char x = CHR ''a'' \<Longrightarrow> x = CHR ''a'' \<or> x = CHR ''A''"
  by (cases x) (auto simp: lower_char_def is_upper_def Let_def split: if_splits)

lemma lit_n_cases: "lit ic (CHR ''n'') x \<Longrightarrow> x = CHR ''n'' \<or> x = CHR ''N''"
  using lower_char_n [of x] by (simp add: lit_def lower_char_def is_upper_def split: if_splits)

lemma lit_a_cases: "lit ic (CHR ''a'') x \<Longrightarrow> x = CHR ''a'' \<or> x = CHR ''A''"
  using lower_char_a [of x] by (simp add: lit_def lower_char_def is_upper_def split: if_splits)

lemma lit_n_word: "lit ic (CHR ''n'') x \<Longrightarrow> is_word x"
  by (drule lit_n_cases) (auto simp: is_word_def)

lemma lit_a_word: "lit ic (CHR ''a'') x \<Longrightarrow> is_word x"
  by (drule lit_a_cases) (auto simp: is_word_def)

lemma lit_n_not_space: "lit ic (CHR ''n'') x \<Longrightarrow> \<not> is_space x"
  using lit_n_word space_not_word by blast

lemma lit_a_not_space: "lit ic (CHR ''a'') x \<Longrightarrow> \<not> is_space x"
  using lit_a_word space_not_word by blast

lemma nan_at_iff:
  "nan_at ic pw s \<longleftrightarrow>
     \<not> pw \<and> (\<exists>x y z rest. s = x # y # z # rest \<and> lit ic (CHR ''n'') x \<and> lit ic (CHR ''a'') y
                 \<and> lit ic (CHR ''n'') z \<and> word_end rest)"
proof (cases s)
  case Nil
  then show ?thesis by simp
next
  case s1: (Cons x s')
  show ?thesis
  proof (cases s')
    case Nil
    with s1 show ?thesis by simp
  next
    case s2: (Cons y s'')
    show ?thesis
    proof (cases s'')
      case Nil
      with s1 s2 show ?thesis by simp
    next
      case (Cons z rest)
      with s1 s2 show ?thesis
        by (auto simp: boundary_def word_end_def lit_n_word split: list.splits)
    qed
  qed
qed

lemma word_end_simps [simp]:
  "word_end [] = True" "word_end (c # cs) = (\<not> is_word c)"
  by (simp_all add: word_end_def)

lemma starts_nonspace_simps [simp]:
  "starts_nonspace [] = True" "starts_nonspace (c # cs) = (\<not> is_space c)"
  by (simp_all add: starts_nonspace_def)

lemma nan_at_Cons_word: "nan_at ic pw (c # cs) \<Longrightarrow> is_word c \<and> \<not> pw"
  by (auto simp: nan_at_iff lit_n_word)

lemma re_sub_nan_nonword:
  "\<not> is_word c \<Longrightarrow> re_sub_nan ic pw (c # cs) = c # re_sub_nan ic False cs"
  using nan_at_Cons_word [of ic pw c cs] by auto

lemma re_sub_nan_inside:
  "re_sub_nan ic True (c # cs) = c # re_sub_nan ic (is_word c) cs"
  using nan_at_Cons_word [of ic True c cs] by auto

lemma re_sub_nan_match:
  "nan_at ic pw (c # cs) \<Longrightarrow> re_sub_nan ic pw (c # cs) = re_sub_nan ic True (drop 2 cs)"
  by simp

lemma re_sub_nan_copy:
  "\<not> nan_at ic pw (c # cs) \<Longrightarrow> re_sub_nan ic pw (c # cs) = c # re_sub_nan ic (is_word c) cs"
  by simp

declare re_sub_nan.simps(2) [simp del]

lemma re_sub_nan_id: "nan_free ic pw s \<Longrightarrow> re_sub_nan ic pw s = s"
  by (induction s arbitrary: pw) (simp_all add: re_sub_nan_copy)

lemma nan_free_word_end: "word_end s \<Longrightarrow> nan_free ic pw s = nan_free ic False s"
  using nan_at_Cons_word by (cases s) auto

lemma re_sub_nan_word_end: "word_end s \<Longrightarrow> re_sub_nan ic pw s = re_sub_nan ic False s"
  by (cases s) (auto simp: re_sub_nan_nonword)

lemma word_end_re_sub_nan: "word_end s \<Longrightarrow> word_end (re_sub_nan ic pw s)"
  by (cases s) (auto simp: re_sub_nan_nonword)

lemma word_end_re_sub_nan_inside: "word_end (re_sub_nan ic True s) \<Longrightarrow> word_end s"
  by (cases s) (auto simp: re_sub_nan_inside)

lemma nan_at_re_sub_nan:
  assumes "nan_at ic pw (c # re_sub_nan ic True cs)"
  shows "nan_at ic pw (c # cs)"
proof -
  from assms obtain y z rest where
    r: "re_sub_nan ic True cs = y # z # rest" and pw: "\<not> pw" and
    l: "lit ic (CHR ''n'') c" "lit ic (CHR ''a'') y" "lit ic (CHR ''n'') z" and
    e: "word_end rest"
    by (auto simp: nan_at_iff)
  from r obtain cs1 where c1: "cs = y # cs1" and r1: "re_sub_nan ic True cs1 = z # rest"
    using l(2) by (cases cs) (auto simp: lit_a_word re_sub_nan_inside)
  from r1 obtain cs2 where c2: "cs1 = z # cs2" and r2: "re_sub_nan ic True cs2 = rest"
    using l(3) by (cases cs1) (auto simp: lit_n_word re_sub_nan_inside)
  from e r2 have "word_end cs2" by (auto intro: word_end_re_sub_nan_inside)
  with pw l c1 c2 show ?thesis by (auto simp: nan_at_iff)
qed

lemma nan_free_re_sub_nan: "nan_free ic pw (re_sub_nan ic pw s)"
proof (induction ic pw s rule: re_sub_nan.induct)
  case (1 ic pw)
  show ?case by simp
next
  case (2 ic pw c cs)
  show ?case
  proof (cases "nan_at ic pw (c # cs)")
    case True
    then have e: "word_end (drop 2 cs)" and pw: "\<not> pw"
      by (auto simp: nan_at_iff)
    from 2(1) [OF True] have "nan_free ic True (re_sub_nan ic True (drop 2 cs))" .
    then have "nan_free ic False (re_sub_nan ic True (drop 2 cs))"
      using nan_free_word_end [OF word_end_re_sub_nan [OF e], of ic True ic True] by simp
    with True pw show ?thesis by (simp add: re_sub_nan_match)
  next
    case False
    from 2(2) [OF False] have ih: "nan_free ic (is_word c) (re_sub_nan ic (is_word c) cs)" .
    have "\<not> nan_at ic pw (c # re_sub_nan ic (is_word c) cs)"
    proof
      assume a: "nan_at ic pw (c # re_sub_nan ic (is_word c) cs)"
      then have "is_word c" by (rule nan_at_Cons_word [THEN conjunct1])
      with a have "nan_at ic pw (c # cs)" by (auto intro: nan_at_re_sub_nan)
      with False show False by simp
    qed
    with False ih show ?thesis by (simp add: re_sub_nan_copy)
  qed
qed

subsection \<open>White space\<close>

lemma starts_nonspace_dropWhile: "starts_nonspace (dropWhile is_space s)"
  by (induction s) auto

lemma re_sub_ws_nonspace_head:
  "re_sub_ws s = y # r \<Longrightarrow> \<not> is_space y \<Longrightarrow> \<exists>s'. s = y # s' \<and> r = re_sub_ws s'"
  by (cases s) (auto simp: is_space_def split: if_splits)

lemma word_end_re_sub_ws: "word_end (re_sub_ws s) \<Longrightarrow> word_end s"
  by (cases s) (auto simp: space_not_word split: if_splits)

lemma nan_at_re_sub_ws:
  assumes "nan_at ic pw (c # re_sub_ws cs)"
  shows "nan_at ic pw (c # cs)"
proof -
  from assms obtain y z rest where
    r: "re_sub_ws cs = y # z # rest" and pw: "\<not> pw" and
    l: "lit ic (CHR ''n'') c" "lit ic (CHR ''a'') y" "lit ic (CHR ''n'') z" and
    e: "word_end rest"
    by (auto simp: nan_at_iff)
  from re_sub_ws_nonspace_head [OF r lit_a_not_space [OF l(2)]]
  obtain cs1 where c1: "cs = y # cs1" and r1: "re_sub_ws cs1 = z # rest" by auto
  from re_sub_ws_nonspace_head [OF r1 lit_n_not_space [OF l(3)]]
  obtain cs2 where c2: "cs1 = z # cs2" and r2: "rest = re_sub_ws cs2" by auto
  from e r2 have "word_end cs2" by (auto intro: word_end_re_sub_ws)
  with pw l c1 c2 show ?thesis by (auto simp: nan_at_iff)
qed

lemma nan_free_lstrip: "nan_free ic False s \<Longrightarrow> nan_free ic False (dropWhile is_space s)"
  by (induction s) (auto simp: space_not_word)

lemma nan_free_re_sub_ws: "nan_free ic pw s \<Longrightarrow> nan_free ic pw (re_sub_ws s)"
proof (induction s arbitrary: pw rule: re_sub_ws.induct)
  case 1
  show ?case by simp
next
  case (2 c cs)
  show ?case
  proof (cases "is_space c")
    case True
    then have nw: "\<not> is_word c" by (rule space_not_word)
    with "2.prems" have "nan_free ic False (dropWhile is_space cs)"
      by (auto intro: nan_free_lstrip)
    from "2.IH"(1) [OF True this]
    have "nan_free ic False (re_sub_ws (dropWhile is_space cs))" .
    moreover have "\<not> is_word (CHR '' '')" by (simp add: is_word_def)
    moreover have "\<not> nan_at ic pw (CHR '' '' # re_sub_ws (dropWhile is_space cs))"
      using nan_at_Cons_word \<open>\<not> is_word (CHR '' '')\<close> by blast
    ultimately show ?thesis using True by simp
  next
    case False
    from "2.prems" have "nan_free ic (is_word c) cs" and n: "\<not> nan_at ic pw (c # cs)"
      by simp_all
    from "2.IH"(2) [OF False this(1)] have "nan_free ic (is_word c) (re_sub_ws cs)" .
    moreover from n have "\<not> nan_at ic pw (c # re_sub_ws cs)"
      using nan_at_re_sub_ws by blast
    ultimately show ?thesis using False by simp
  qed
qed

lemma nan_at_append:
  assumes "nan_at ic pw (c # xs)" and "\<forall>d\<in>set ys. is_space d"
  shows "nan_at ic pw (c # xs @ ys)"
proof -
  from assms(1) obtain y z rest where
    x: "xs = y # z # rest" and pw: "\<not> pw" and
    l: "lit ic (CHR ''n'') c" "lit ic (CHR ''a'') y" "lit ic (CHR ''n'') z" and
    e: "word_end rest"
    by (auto simp: nan_at_iff)
  have "word_end (rest @ ys)"
    using e assms(2) by (cases rest; cases ys) (auto simp: space_not_word)
  with x pw l show ?thesis by (auto simp: nan_at_iff)
qed

lemma nan_free_prefix:
  "nan_free ic pw (xs @ ys) \<Longrightarrow> \<forall>d\<in>set ys. is_space d \<Longrightarrow> nan_free ic pw xs"
proof (induction xs arbitrary: pw)
  case Nil
  show ?case by simp
next
  case (Cons c xs)
  then show ?case using nan_at_append [of ic pw c xs ys] by auto
qed

lemma rstrip_decomp: "rstrip s @ rev (takeWhile is_space (rev s)) = s"
proof -
  have "rev (takeWhile is_space (rev s) @ dropWhile is_space (rev s)) = s" by simp
  then show ?thesis unfolding rstrip_def rev_append .
qed

lemma nan_free_rstrip: "nan_free ic pw s \<Longrightarrow> nan_free ic pw (rstrip s)"
proof -
  assume a: "nan_free ic pw s"
  have "\<forall>d\<in>set (rev (takeWhile is_space (rev s))). is_space d"
    by (auto dest: set_takeWhileD)
  with a show ?thesis
    using nan_free_prefix [of ic pw "rstrip s" "rev (takeWhile is_space (rev s))"]
    by (simp add: rstrip_decomp)
qed

lemma nan_free_strip: "nan_free ic False s \<Longrightarrow> nan_free ic False (strip s)"
  by (simp add: strip_def lstrip_def nan_free_rstrip nan_free_lstrip)

subsection \<open>Stripping twice\<close>

lemma lstrip_id: "starts_nonspace s \<Longrightarrow> lstrip s = s"
  by (cases s) (auto simp: lstrip_def)

lemma starts_nonspace_rstrip: "starts_nonspace s \<Longrightarrow> starts_nonspace (rstrip s)"
  using rstrip_decomp [of s] by (cases "rstrip s"; cases s) auto

lemma rstrip_rstrip: "rstrip (rstrip s) = rstrip s"
  by (simp add: rstrip_def dropWhile_idem)

lemma strip_strip: "strip (strip s) = strip s"
proof -
  have "starts_nonspace (rstrip (lstrip s))"
    by (simp add: starts_nonspace_rstrip lstrip_def starts_nonspace_dropWhile)
  then have "lstrip (rstrip (lstrip s)) = rstrip (lstrip s)" by (rule lstrip_id)
  then show ?thesis by (simp add: strip_def rstrip_rstrip)
qed

subsection \<open>clean_standard_options\<close>

lemma starts_nonspace_re_sub_ws: "starts_nonspace s \<Longrightarrow> starts_nonspace (re_sub_ws s)"
  by (cases s) auto

lemma single_spaced_re_sub_ws: "single_spaced (re_sub_ws s)"
proof (induction s rule: re_sub_ws.induct)
  case 1
  show ?case by simp
next
  case (2 c cs)
  have "starts_nonspace (re_sub_ws (dropWhile is_space cs))"
    by (simp add: starts_nonspace_re_sub_ws starts_nonspace_dropWhile)
  then have "case re_sub_ws (dropWhile is_space cs) of [] \<Rightarrow> True | d # _ \<Rightarrow> \<not> is_space d"
    by (simp add: starts_nonspace_def)
  with 2 show ?case by (cases "is_space c") simp_all
qed

lemma re_sub_ws_id: "single_spaced s \<Longrightarrow> re_sub_ws s = s"
proof (induction s)
  case Nil
  show ?case by simp
next
  case (Cons c cs)
  show ?case
  proof (cases "is_space c")
    case True
    with Cons.prems have "c = CHR '' ''" and "starts_nonspace cs"
      by (simp_all add: starts_nonspace_def)
    then have "dropWhile is_space cs = cs" using lstrip_id [of cs] by (simp add: lstrip_def)
    with Cons True \<open>c = CHR '' ''\<close> show ?thesis by simp
  next
    case False
    with Cons show ?thesis by simp
  qed
qed

lemma single_spaced_lstrip: "single_spaced s \<Longrightarrow> single_spaced (dropWhile is_space s)"
  by (induction s) auto

lemma single_spaced_prefix: "single_spaced (xs @ ys) \<Longrightarrow> single_spaced xs"
proof (induction xs)
  case Nil
  show ?case by simp
next
  case (Cons c xs)
  then show ?case by (cases xs) auto
qed

lemma single_spaced_strip: "single_spaced s \<Longrightarrow> single_spaced (strip s)"
proof -
  assume "single_spaced s"
  then have "single_spaced (lstrip s)" by (simp add: lstrip_def single_spaced_lstrip)
  then have "single_spaced (rstrip (lstrip s) @ rev (takeWhile is_space (rev (lstrip s))))"
    by (simp add: rstrip_decomp)
  then show ?thesis unfolding strip_def by (rule single_spaced_prefix)
qed

lemma clean_text_clean_text: "clean_text (clean_text s) = clean_text s"
proof -
  have "nan_free True False (clean_text s)"
    unfolding clean_text_def
    by (intro nan_free_strip nan_free_re_sub_ws nan_free_re_sub_nan)
  then have 1: "re_sub_nan True False (clean_text s) = clean_text s" by (rule re_sub_nan_id)
  have "single_spaced (clean_text s)"
    unfolding clean_text_def by (intro single_spaced_strip single_spaced_re_sub_ws)
  then have 2: "re_sub_ws (clean_text s) = clean_text s" by (rule re_sub_ws_id)
  have 3: "strip (clean_text s) = clean_text s" by (simp add: clean_text_def strip_strip)
  show ?thesis
    using 1 2 3 by (simp add: clean_text_def [of "clean_text s"])
qed

lemma clean_text_Nil: "clean_text [] = []"
  by (simp add: clean_text_def strip_def lstrip_def rstrip_def)

lemma clean_standard_options_loop_eq:
  "clean_standard_options_loop options cleaned =
     cleaned @ filter (\<lambda>t. t \<noteq> []) (map clean_text [s. Some s \<leftarrow> options])"
proof (induction options arbitrary: cleaned)
  case Nil
  show ?case by simp
next
  case (Cons opt options)
  show ?case
  proof (cases opt)
    case None
    then show ?thesis by (simp add: Cons.IH)
  next
    case (Some s)
    then show ?thesis
      by (cases "s = []") (simp_all add: Cons.IH Let_def clean_text_Nil clean_text_def [symmetric])
  qed
qed

lemma clean_standard_options_eq:
  "clean_standard_options options = filter (\<lambda>t. t \<noteq> []) (map clean_text [s. Some s \<leftarrow> options])"
  by (simp add: clean_standard_options_def clean_standard_options_loop_eq)

lemma present_map_Some: "[s. Some s \<leftarrow> map Some ys] = ys"
  by (induction ys) simp_all

text \<open>
  Claim C8. \<open>clean_standard_options\<close> is idempotent: applied to its own output (a list of
  strings) it returns that output.
\<close>

theorem clean_standard_options_idempotent:
  "clean_standard_options (map Some (clean_standard_options options))
     = clean_standard_options options"
proof -
  let ?ys = "clean_standard_options options"
  have "\<forall>y\<in>set ?ys. clean_text y = y \<and> y \<noteq> []"
    by (auto simp: clean_standard_options_eq clean_text_clean_text)
  then have "map clean_text ?ys = ?ys" and "filter (\<lambda>t. t \<noteq> []) ?ys = ?ys"
    by (simp_all add: map_idI)
  moreover have "clean_standard_options (map Some ?ys)
      = filter (\<lambda>t. t \<noteq> []) (map clean_text ?ys)"
    by (simp only: clean_standard_options_eq [of "map Some ?ys"] present_map_Some)
  ultimately show ?thesis by simp
qed

lemmas eval_text = is_space_def is_word_def is_upper_def lower_char_def lower_def lstrip_def
  rstrip_def strip_def lit_def boundary_def clean_standard_options_def re_sub_nan.simps

theorem clean_standard_options_idempotent_witness:
  "clean_standard_options [None, Some '' Coolant   NaN tank '', Some ''nan'', Some '''', Some ''banana'']
     = [''Coolant tank'', ''banana'']
   \<and> clean_standard_options [Some ''Coolant tank'', Some ''banana''] = [''Coolant tank'', ''banana'']"
  using clean_standard_options_idempotent
    [of "[None, Some '' Coolant   NaN tank '', Some ''nan'', Some '''', Some ''banana'']"]
  by (simp add: eval_text)

subsection \<open>The substitution removes exactly the words that spell nan\<close>

lemma lower_char_n_a [simp]:
  "lower_char (CHR ''n'') = CHR ''n''" "lower_char (CHR ''a'') = CHR ''a''"
  by (simp_all add: lower_char_def is_upper_def)

lemma is_nan_iff:
  "is_nan ic t \<longleftrightarrow>
     (\<exists>x y z. t = [x, y, z] \<and> lit ic (CHR ''n'') x \<and> lit ic (CHR ''a'') y \<and> lit ic (CHR ''n'') z)"
  by (cases ic) (auto simp: is_nan_def lit_def lower_def)

lemma is_nan_word_head: "is_nan ic (c # cs) \<Longrightarrow> is_word c"
  by (auto simp: is_nan_iff lit_n_word)

lemma takeWhile_word_end: "word_end s \<Longrightarrow> takeWhile is_word s = [] \<and> dropWhile is_word s = s"
  by (cases s) auto

lemma word_end_dropWhile: "word_end (dropWhile is_word s)"
  by (induction s) auto

lemma re_sub_nan_run:
  "re_sub_nan ic True s = takeWhile is_word s @ re_sub_nan ic False (dropWhile is_word s)"
proof (induction s)
  case Nil
  show ?case by simp
next
  case (Cons c cs)
  then show ?case by (cases "is_word c") (simp_all add: re_sub_nan_inside re_sub_nan_nonword)
qed

lemma nan_at_word:
  "nan_at ic False (c # cs) \<longleftrightarrow> is_word c \<and> is_nan ic (c # takeWhile is_word cs)"
proof
  assume "nan_at ic False (c # cs)"
  then obtain y z rest where cs: "cs = y # z # rest" and
    l: "lit ic (CHR ''n'') c" "lit ic (CHR ''a'') y" "lit ic (CHR ''n'') z" and e: "word_end rest"
    by (auto simp: nan_at_iff)
  from l have "is_word c" "is_word y" "is_word z" by (simp_all add: lit_n_word lit_a_word)
  with cs e l show "is_word c \<and> is_nan ic (c # takeWhile is_word cs)"
    by (simp add: is_nan_iff takeWhile_word_end)
next
  assume a: "is_word c \<and> is_nan ic (c # takeWhile is_word cs)"
  then obtain y z where t: "takeWhile is_word cs = [y, z]" and
    l: "lit ic (CHR ''n'') c" "lit ic (CHR ''a'') y" "lit ic (CHR ''n'') z"
    by (auto simp: is_nan_iff)
  have cs: "cs = [y, z] @ dropWhile is_word cs"
    using takeWhile_dropWhile_id [of is_word cs] t by simp
  have "word_end (dropWhile is_word cs)" by (rule word_end_dropWhile)
  with l show "nan_at ic False (c # cs)"
    by (subst cs) (simp add: nan_at_iff)
qed

lemma re_sub_nan_word:
  assumes "is_word c"
  shows "re_sub_nan ic False (c # cs) =
           (if is_nan ic (c # takeWhile is_word cs) then [] else c # takeWhile is_word cs)
           @ re_sub_nan ic False (dropWhile is_word cs)"
proof (cases "nan_at ic False (c # cs)")
  case True
  then obtain y z rest where cs: "cs = y # z # rest" and
    l: "lit ic (CHR ''a'') y" "lit ic (CHR ''n'') z" and e: "word_end rest"
    by (auto simp: nan_at_iff)
  from l have w: "is_word y" "is_word z" by (simp_all add: lit_n_word lit_a_word)
  have "re_sub_nan ic False (c # cs) = re_sub_nan ic True rest"
    using True by (simp add: re_sub_nan_match cs)
  also have "\<dots> = re_sub_nan ic False rest" using e by (rule re_sub_nan_word_end)
  finally have r: "re_sub_nan ic False (c # cs) = re_sub_nan ic False rest" .
  have "dropWhile is_word cs = rest" using w e by (simp add: cs takeWhile_word_end)
  with r True assms show ?thesis by (simp add: nan_at_word)
next
  case False
  then have "re_sub_nan ic False (c # cs) = c # re_sub_nan ic True cs"
    using assms by (simp add: re_sub_nan_copy)
  with False assms show ?thesis by (simp add: nan_at_word re_sub_nan_run [of ic cs])
qed

lemma re_sub_nan_gap:
  "re_sub_nan ic False s =
     takeWhile (\<lambda>x. \<not> is_word x) s @ re_sub_nan ic False (dropWhile (\<lambda>x. \<not> is_word x) s)"
  by (induction s) (simp_all add: re_sub_nan_nonword)

lemma re_sub_nan_tokens: "re_sub_nan ic False s = remove_nan_words ic s"
proof (induction s rule: tokens.induct)
  case 1
  show ?case by (simp add: remove_nan_words_def)
next
  case (2 c cs)
  show ?case
  proof (cases "is_word c")
    case True
    then have p: "(\<lambda>x. is_word x = is_word c) = is_word" by auto
    from 2 show ?thesis
      by (simp add: remove_nan_words_def re_sub_nan_word [OF True] p)
  next
    case False
    then have p: "(\<lambda>x. is_word x = is_word c) = (\<lambda>x. \<not> is_word x)" by auto
    have n: "\<not> is_nan ic (c # takeWhile (\<lambda>x. \<not> is_word x) cs)"
      using False is_nan_word_head by blast
    have "re_sub_nan ic False (c # cs) = c # re_sub_nan ic False cs"
      using False by (simp add: re_sub_nan_nonword)
    also have "\<dots> = c # takeWhile (\<lambda>x. \<not> is_word x) cs
                      @ re_sub_nan ic False (dropWhile (\<lambda>x. \<not> is_word x) cs)"
      using re_sub_nan_gap [of ic cs] by simp
    finally show ?thesis using 2 n by (simp add: remove_nan_words_def p)
  qed
qed

lemma tokens_word: "w \<noteq> [] \<Longrightarrow> \<forall>c\<in>set w. is_word c \<Longrightarrow> tokens w = [w]"
proof (cases w)
  case Nil
  assume "w \<noteq> []"
  with Nil show ?thesis by simp
next
  case (Cons c cs)
  assume "\<forall>c\<in>set w. is_word c"
  with Cons have "takeWhile (\<lambda>x. is_word x = is_word c) cs = cs"
    and "dropWhile (\<lambda>x. is_word x = is_word c) cs = []"
    by simp_all
  with Cons show ?thesis by (simp del: takeWhile_eq_all_conv dropWhile_eq_Nil_conv)
qed

lemma clean_text_word:
  assumes "w \<noteq> []" and "\<forall>c\<in>set w. is_word c" and "lower w \<noteq> ''nan''"
  shows "clean_text w = w"
proof -
  have ns: "\<forall>c\<in>set w. \<not> is_space c" using assms(2) space_not_word by blast
  have "re_sub_nan True False w = w"
    using assms by (simp add: re_sub_nan_tokens remove_nan_words_def tokens_word is_nan_def)
  moreover have "re_sub_ws w = w" using ns by (induction w) simp_all
  moreover have "strip w = w"
  proof -
    from ns have "dropWhile is_space w = w" by (cases w) simp_all
    moreover from ns have "dropWhile is_space (rev w) = rev w" by (cases "rev w" rule: list.exhaust) (auto simp: dropWhile_eq_self_iff)
    ultimately show ?thesis by (simp add: strip_def lstrip_def rstrip_def)
  qed
  ultimately show ?thesis by (simp add: clean_text_def)
qed

text \<open>
  Claim C9. \<open>clean_standard_options\<close> removes \<open>nan\<close> in any case, and only as a whole
  word: each kept text is the input without its tokens spelling \<open>nan\<close>, white space
  collapsed and trimmed; a single word other than \<open>nan\<close> is returned as it is, whatever
  it contains; and \<open>["banana", "nan", "foo nan bar"]\<close> gives \<open>["banana", "foo bar"]\<close>.
\<close>

theorem clean_standard_options_whole_word:
  "clean_standard_options options
     = filter (\<lambda>t. t \<noteq> [])
         (map (\<lambda>s. strip (re_sub_ws (remove_nan_words True s))) [s. Some s \<leftarrow> options])
   \<and> (\<forall>w. w \<noteq> [] \<and> (\<forall>c\<in>set w. is_word c) \<and> lower w \<noteq> ''nan''
          \<longrightarrow> clean_standard_options [Some w] = [w])
   \<and> clean_standard_options [Some ''banana'', Some ''nan'', Some ''foo nan bar'']
       = [''banana'', ''foo bar'']"
proof (intro conjI allI impI)
  have "clean_text = (\<lambda>s. strip (re_sub_ws (remove_nan_words True s)))"
    by (rule ext) (simp add: clean_text_def re_sub_nan_tokens)
  then show "clean_standard_options options
     = filter (\<lambda>t. t \<noteq> [])
         (map (\<lambda>s. strip (re_sub_ws (remove_nan_words True s))) [s. Some s \<leftarrow> options])"
    by (simp add: clean_standard_options_eq)
next
  fix w
  assume "w \<noteq> [] \<and> (\<forall>c\<in>set w. is_word c) \<and> lower w \<noteq> ''nan''"
  then show "clean_standard_options [Some w] = [w]"
    by (simp add: clean_standard_options_eq clean_text_word)
next
  show "clean_standard_options [Some ''banana'', Some ''nan'', Some ''foo nan bar'']
       = [''banana'', ''foo bar'']"
    by (simp add: eval_text)
qed

theorem clean_standard_options_whole_word_witness:
  "clean_standard_options [Some ''banana''] = [''banana'']
   \<and> clean_standard_options [Some ''bananas, NAN and nan-free Nantes'']
       = [''bananas, and -free Nantes'']"
proof -
  have "''banana'' \<noteq> [] \<and> (\<forall>c\<in>set ''banana''. is_word c) \<and> lower ''banana'' \<noteq> ''nan''"
    by (simp add: eval_text)
  with clean_standard_options_whole_word [of "[]"]
  have "clean_standard_options [Some ''banana''] = [''banana'']" by blast
  moreover have "clean_standard_options [Some ''bananas, NAN and nan-free Nantes'']
       = [''bananas, and -free Nantes'']"
    by (simp add: eval_text)
  ultimately show ?thesis by simp
qed

section \<open>Properties of group_optional_options\<close>

subsection \<open>The first loop\<close>

lemma clean_description_idem: "clean_description (clean_description d) = clean_description d"
proof -
  have "nan_free False False (clean_description d)"
    unfolding clean_description_def by (intro nan_free_strip nan_free_re_sub_nan)
  then have "re_sub_nan False False (clean_description d) = clean_description d"
    by (rule re_sub_nan_id)
  moreover have "strip (clean_description d) = clean_description d"
    by (simp add: clean_description_def strip_strip)
  ultimately show ?thesis by (simp add: clean_description_def [of "clean_description d"])
qed

lemma clean_options_loop_eq:
  "clean_options_loop options h cleaned =
     ((\<lambda>r. if r \<in> set options
            then (h r)\<lparr>description := clean_description (description (h r))\<rparr> else h r),
      cleaned @ filter (\<lambda>r. clean_description (description (h r)) \<noteq> []) options)"
proof (induction options arbitrary: h cleaned)
  case Nil
  show ?case by simp
next
  case (Cons opt options)
  define h1 where "h1 = h(opt := (h opt)\<lparr>description := clean_description (description (h opt))\<rparr>)"
  have same: "clean_description (description (h1 r)) = clean_description (description (h r))" for r
    by (simp add: h1_def clean_description_idem)
  have store: "(\<lambda>r. if r \<in> set options
                    then (h1 r)\<lparr>description := clean_description (description (h1 r))\<rparr> else h1 r)
             = (\<lambda>r. if r \<in> set (opt # options)
                    then (h r)\<lparr>description := clean_description (description (h r))\<rparr> else h r)"
    by (rule ext) (simp add: h1_def clean_description_idem)
  have step: "clean_options_loop (opt # options) h cleaned =
      clean_options_loop options h1
        (if clean_description (description (h opt)) = [] then cleaned else cleaned @ [opt])"
    by (simp add: h1_def clean_description_def Let_def)
  show ?case
    unfolding step Cons.IH store by (simp add: same)
qed

lemma cleaned_options_eq:
  "cleaned_options options h = filter (\<lambda>r. clean_description (description (h r)) \<noteq> []) options"
  by (simp add: cleaned_options_def clean_options_loop_eq)

lemma cleaned_store_eq:
  "fst (clean_options_loop options h []) =
     (\<lambda>r. if r \<in> set options
           then (h r)\<lparr>description := clean_description (description (h r))\<rparr> else h r)"
  by (simp add: clean_options_loop_eq)

lemma group_optional_options_eq:
  "group_optional_options options h =
     ((categorize_loop (fst (clean_options_loop options h [])) (remaining_options options h) [],
       if extracted options h
       then price (fst (clean_options_loop options h []) (hd (cleaned_options options h))) else 0),
      fst (clean_options_loop options h []))"
  by (simp add: group_optional_options_def remaining_options_def extracted_def cleaned_options_def
      split: prod.splits)

lemma cleaned_options_subset: "set (cleaned_options options h) \<subseteq> set options"
  by (auto simp: cleaned_options_eq)

lemma hd_cleaned_in_options:
  "cleaned_options options h \<noteq> [] \<Longrightarrow> hd (cleaned_options options h) \<in> set options"
  using cleaned_options_subset [of options h] hd_in_set by blast

subsection \<open>The buckets\<close>

lemma mset_bucket_append:
  "mset (concat (map snd (bucket_append k r cats))) = add_mset r (mset (concat (map snd cats)))"
  by (induction cats) auto

lemma mset_categorize_loop:
  "mset (concat (map snd (categorize_loop h rs cats))) = mset (concat (map snd cats)) + mset rs"
  by (induction rs arbitrary: cats) (simp_all add: mset_bucket_append)

lemma keys_bucket_append:
  "map fst (bucket_append k r cats)
     = (if k \<in> fst ` set cats then map fst cats else map fst cats @ [k])"
  by (induction cats) force+

lemma bucket_bucket_append:
  "bucket (bucket_append k r cats) k'
     = (if k' = k then bucket cats k @ [r] else bucket cats k')"
  by (induction cats) (auto simp: bucket_def)

lemma distinct_bucket_append:
  "distinct (map fst cats) \<Longrightarrow> distinct (map fst (bucket_append k r cats))"
  by (simp add: keys_bucket_append)

lemma nonempty_bucket_append:
  "[] \<notin> snd ` set cats \<Longrightarrow> [] \<notin> snd ` set (bucket_append k r cats)"
  by (induction cats) (force split: if_splits)+

lemma bucket_categorize_loop:
  "bucket (categorize_loop h rs cats) k
     = bucket cats k @ filter (\<lambda>r. category_of (lower (description (h r))) = k) rs"
  by (induction rs arbitrary: cats) (simp_all add: bucket_bucket_append)

lemma keys_set_bucket_append: "fst ` set (bucket_append k r cats) = insert k (fst ` set cats)"
proof -
  have "set (map fst (bucket_append k r cats)) = insert k (fst ` set cats)"
    unfolding keys_bucket_append by auto
  then show ?thesis by simp
qed

lemma keys_categorize_loop:
  "fst ` set (categorize_loop h rs cats)
     = fst ` set cats \<union> (\<lambda>r. category_of (lower (description (h r)))) ` set rs"
  by (induction rs arbitrary: cats) (simp_all add: keys_set_bucket_append)

lemma distinct_categorize_loop:
  "distinct (map fst cats) \<Longrightarrow> distinct (map fst (categorize_loop h rs cats))"
  by (induction rs arbitrary: cats) (simp_all add: distinct_bucket_append)

lemma nonempty_categorize_loop:
  "[] \<notin> snd ` set cats \<Longrightarrow> [] \<notin> snd ` set (categorize_loop h rs cats)"
  by (induction rs arbitrary: cats) (simp_all add: nonempty_bucket_append)

lemma bucket_Nil [simp]: "bucket [] k = []"
  by (simp add: bucket_def)

lemma bucket_member: "distinct (map fst cats) \<Longrightarrow> (k, b) \<in> set cats \<Longrightarrow> bucket cats k = b"
  by (simp add: bucket_def)

lemma categorize_member:
  assumes "(k, b) \<in> set (categorize_loop h rs [])"
  shows "b = filter (\<lambda>r. category_of (lower (description (h r))) = k) rs \<and> b \<noteq> []"
proof -
  have "distinct (map fst (categorize_loop h rs []))" by (simp add: distinct_categorize_loop)
  from bucket_member [OF this assms]
  have "b = filter (\<lambda>r. category_of (lower (description (h r))) = k) rs"
    by (simp add: bucket_categorize_loop)
  moreover have "b \<noteq> []" using nonempty_categorize_loop [of "[]" h rs] assms by force
  ultimately show ?thesis by simp
qed

lemma categorize_present:
  assumes "r \<in> set rs"
  shows "\<exists>b. (category_of (lower (description (h r))), b) \<in> set (categorize_loop h rs []) \<and> r \<in> set b"
proof -
  let ?k = "category_of (lower (description (h r)))"
  have "?k \<in> fst ` set (categorize_loop h rs [])"
    using assms by (simp add: keys_categorize_loop)
  then obtain b where b: "(?k, b) \<in> set (categorize_loop h rs [])" by auto
  from categorize_member [OF this] assms have "r \<in> set b" by simp
  with b show ?thesis by blast
qed

lemma category_of_names:
  "category_of d \<in> {''Spindle Options'', ''Probing & Measurement'', ''Coolant Systems'',
      ''Table & Pallet Systems'', ''Tool Storage'', ''Control Options'', ''Other Options''}"
  by (simp add: category_of_def)

lemmas eval_group = eval_text group_optional_options_def base_price_test_def category_of_def
  split.simps clean_description_def extracted_def cleaned_options_def remaining_options_def

subsection \<open>Categories\<close>

lemma category_of_spec_category: "category_of (lower d) = spec_category d"
  by (auto simp: category_of_def spec_category_def category_rules_def)

lemma spec_category_names:
  "spec_category d \<in> fst ` set category_rules \<union> {''Other Options''}"
  unfolding category_of_spec_category [symmetric]
  using category_of_names [of "lower d"] by (auto simp: category_rules_def)

text \<open>
  Claim C5. Every remaining item is in exactly one bucket, the one named by the first rule
  in priority order that its lower-cased description satisfies: the keys are distinct and
  among the seven names, each bucket holds exactly the remaining items of its category (in
  their order) and is not empty, and every remaining item is in the bucket of its category.
  A description with both \<open>spindle\<close> and \<open>tool storage magazine\<close> goes to Spindle Options.
\<close>

theorem categories_by_priority:
  "(let ((cats, bp), h') = group_optional_options options h in
      distinct (map fst cats)
      \<and> (\<forall>(k, b)\<in>set cats.
            k \<in> fst ` set category_rules \<union> {''Other Options''}
            \<and> b = filter (\<lambda>r. spec_category (description (h' r)) = k) (remaining_options options h)
            \<and> b \<noteq> [])
      \<and> (\<forall>r\<in>set (remaining_options options h).
            \<exists>b. (spec_category (description (h' r)), b) \<in> set cats \<and> r \<in> set b))
   \<and> spec_category ''tool storage magazine with spindle'' = ''Spindle Options''"
proof -
  let ?h = "fst (clean_options_loop options h [])"
  let ?cats = "categorize_loop ?h (remaining_options options h) []"
  have 1: "distinct (map fst ?cats)" by (simp add: distinct_categorize_loop)
  have 2: "k \<in> fst ` set category_rules \<union> {''Other Options''}
           \<and> b = filter (\<lambda>r. spec_category (description (?h r)) = k) (remaining_options options h)
           \<and> b \<noteq> []" if "(k, b) \<in> set ?cats" for k b
  proof -
    from categorize_member [OF that]
    have b: "b = filter (\<lambda>r. spec_category (description (?h r)) = k) (remaining_options options h)"
      and ne: "b \<noteq> []"
      unfolding category_of_spec_category by blast+
    from ne b obtain r where "spec_category (description (?h r)) = k"
      by (auto simp: filter_empty_conv)
    with spec_category_names [of "description (?h r)"] b ne show ?thesis by simp
  qed
  have 3: "\<exists>b. (spec_category (description (?h r)), b) \<in> set ?cats \<and> r \<in> set b"
    if "r \<in> set (remaining_options options h)" for r
    using categorize_present [OF that, of ?h] by (simp add: category_of_spec_category)
  have 4: "spec_category ''tool storage magazine with spindle'' = ''Spindle Options''"
    by (simp add: spec_category_def category_rules_def eval_text)
  show ?thesis
    unfolding group_optional_options_eq Let_def prod.case
  proof (intro conjI ballI)
    show "distinct (map fst ?cats)" by (rule 1)
  next
    fix kb
    assume a: "kb \<in> set ?cats"
    obtain k b where kb: "kb = (k, b)" by (cases kb)
    from a have "(k, b) \<in> set ?cats" unfolding kb .
    then have "k \<in> fst ` set category_rules \<union> {''Other Options''}
        \<and> b = filter (\<lambda>r. spec_category (description (?h r)) = k) (remaining_options options h)
        \<and> b \<noteq> []"
      by (rule 2)
    then show "case kb of (k, b) \<Rightarrow>
        k \<in> fst ` set category_rules \<union> {''Other Options''}
        \<and> b = filter (\<lambda>r. spec_category (description (?h r)) = k) (remaining_options options h)
        \<and> b \<noteq> []"
      unfolding kb prod.case .
  next
    fix r
    assume "r \<in> set (remaining_options options h)"
    then show "\<exists>b. (spec_category (description (?h r)), b) \<in> set ?cats \<and> r \<in> set b"
      by (rule 3)
  next
    show "spec_category ''tool storage magazine with spindle'' = ''Spindle Options''" by (rule 4)
  qed
qed

theorem categories_by_priority_witness:
  "fst (fst (group_optional_options [0, 1, 2, 3, 4]
     (\<lambda>r. if r = 0 then \<lparr>description = ''Tool Storage magazine with SPINDLE'', price = 1\<rparr>
          else if r = 1 then \<lparr>description = ''Renishaw table probe'', price = 2\<rparr>
          else if r = 2 then \<lparr>description = ''Tool changer control'', price = 3\<rparr>
          else if r = 3 then \<lparr>description = ''Tool kit'', price = 4\<rparr>
          else \<lparr>description = ''Spindle chiller'', price = 5\<rparr>)))
     = [(''Spindle Options'', [0, 4]), (''Probing & Measurement'', [1]),
        (''Tool Storage'', [2]), (''Other Options'', [3])]
   \<and> (\<exists>b. (''Spindle Options'', b)
            \<in> set [(''Spindle Options'', [0, 4]), (''Probing & Measurement'', [1]),
                    (''Tool Storage'', [2]), (''Other Options'', [3::nat])]
          \<and> 0 \<in> set b)"
proof -
  let ?h = "\<lambda>r::nat. if r = 0 then \<lparr>description = ''Tool Storage magazine with SPINDLE'', price = 1\<rparr>
          else if r = 1 then \<lparr>description = ''Renishaw table probe'', price = 2\<rparr>
          else if r = 2 then \<lparr>description = ''Tool changer control'', price = 3\<rparr>
          else if r = 3 then \<lparr>description = ''Tool kit'', price = 4\<rparr>
          else \<lparr>description = ''Spindle chiller'', price = 5\<rparr>"
  let ?G = "group_optional_options [0, 1, 2, 3, 4] ?h"
  have g: "fst (fst ?G)
     = [(''Spindle Options'', [0, 4]), (''Probing & Measurement'', [1]),
        (''Tool Storage'', [2]), (''Other Options'', [3])]"
    by (simp add: eval_group)
  have r: "remaining_options [0, 1, 2, 3, 4] ?h = [0, 1, 2, 3, 4]"
    by (simp add: eval_group)
  have m: "spec_category (description (snd ?G 0)) = ''Spindle Options''"
    by (simp add: eval_group spec_category_def category_rules_def)
  from categories_by_priority [of "[0, 1, 2, 3, 4]" ?h]
  have "\<forall>r\<in>set (remaining_options [0, 1, 2, 3, 4] ?h).
          \<exists>b. (spec_category (description (snd ?G r)), b) \<in> set (fst (fst ?G)) \<and> r \<in> set b"
    unfolding Let_def case_prod_beta by blast
  then have "\<exists>b. (spec_category (description (snd ?G 0)), b) \<in> set (fst (fst ?G)) \<and> 0 \<in> set b"
    unfolding r by simp
  then have "\<exists>b. (''Spindle Options'', b)
            \<in> set [(''Spindle Options'', [0, 4]), (''Probing & Measurement'', [1]),
                    (''Tool Storage'', [2]), (''Other Options'', [3::nat])]
          \<and> 0 \<in> set b"
    unfolding m g .
  with g show ?thesis by (rule conjI)
qed

subsection \<open>Base price and conservation\<close>

lemma cleaned_item:
  "r \<in> set options \<Longrightarrow>
     fst (clean_options_loop options h []) r
       = (h r)\<lparr>description := clean_description (description (h r))\<rparr>"
  by (simp add: cleaned_store_eq)

lemma extracted_eq:
  "extracted options h \<longleftrightarrow>
     cleaned_options options h \<noteq> []
     \<and> base_price_test ((h (hd (cleaned_options options h)))
          \<lparr>description := clean_description (description (h (hd (cleaned_options options h))))\<rparr>)"
  using hd_cleaned_in_options [of options h]
  by (auto simp: extracted_def cleaned_item)

lemma mset_remaining:
  "mset (remaining_options options h)
     + (if extracted options h then {#hd (cleaned_options options h)#} else {#})
   = mset (cleaned_options options h)"
proof (cases "extracted options h")
  case True
  then have "cleaned_options options h \<noteq> []" by (simp add: extracted_def)
  then have "cleaned_options options h
      = hd (cleaned_options options h) # tl (cleaned_options options h)" by simp
  then have "mset (cleaned_options options h)
      = add_mset (hd (cleaned_options options h)) (mset (tl (cleaned_options options h)))"
    by (metis mset.simps(2))
  with True show ?thesis by (simp add: remaining_options_def)
next
  case False
  then show ?thesis by (simp add: remaining_options_def)
qed

lemma sum_bucket_sizes:
  "sum_list (map (\<lambda>(k, b). length b) cats) = size (mset (concat (map snd cats)))"
  by (induction cats) auto

text \<open>
  Claim C3. The buckets together hold, as a multiset of references, the cleaned non-empty
  items without the one extracted as the base price; so the bucket sizes add up to the
  number of cleaned non-empty items, less one when a base price was extracted. The keys
  are distinct and no item is in two buckets. An item is extracted when the first cleaned
  item passes the test of the source; a returned base price other than 0 implies it.
\<close>

theorem grouping_conserves_items:
  "(let ((cats, bp), h') = group_optional_options options h;
        cl = filter (\<lambda>r. clean_description (description (h r)) \<noteq> []) options
    in sum_list (map (\<lambda>(k, b). length b) cats) + (if extracted options h then 1 else 0)
         = length cl
       \<and> mset (concat (map snd cats)) + (if extracted options h then {#hd cl#} else {#})
         = mset cl
       \<and> distinct (map fst cats)
       \<and> (\<forall>(k1, b1)\<in>set cats. \<forall>(k2, b2)\<in>set cats. \<forall>r. r \<in> set b1 \<and> r \<in> set b2 \<longrightarrow> k1 = k2)
       \<and> (bp \<noteq> 0 \<longrightarrow> extracted options h))"
proof -
  let ?h = "fst (clean_options_loop options h [])"
  let ?cats = "categorize_loop ?h (remaining_options options h) []"
  let ?cl = "filter (\<lambda>r. clean_description (description (h r)) \<noteq> []) options"
  have cl: "cleaned_options options h = ?cl" by (rule cleaned_options_eq)
  have m: "mset (concat (map snd ?cats)) + (if extracted options h then {#hd ?cl#} else {#})
             = mset ?cl"
    unfolding cl [symmetric] using mset_remaining [of options h]
    by (simp only: mset_categorize_loop list.simps concat.simps mset.simps add_0)
  have "size (mset (concat (map snd ?cats)) + (if extracted options h then {#hd ?cl#} else {#}))
          = size (mset ?cl)"
    by (simp only: m)
  then have s: "sum_list (map (\<lambda>(k, b). length b) ?cats) + (if extracted options h then 1 else 0)
             = length ?cl"
    by (simp add: sum_bucket_sizes flip: mset_filter split: if_splits)
  have d: "distinct (map fst ?cats)" by (simp add: distinct_categorize_loop)
  have o: "k1 = k2" if "(k1, b1) \<in> set ?cats" "(k2, b2) \<in> set ?cats" "r \<in> set b1" "r \<in> set b2"
    for k1 b1 k2 b2 r
    using categorize_member [OF that(1)] categorize_member [OF that(2)] that(3,4) by auto
  show ?thesis
    unfolding group_optional_options_eq Let_def prod.case
  proof (intro conjI ballI)
    show "sum_list (map (\<lambda>(k, b). length b) ?cats) + (if extracted options h then 1 else 0)
             = length ?cl" by (rule s)
  next
    show "mset (concat (map snd ?cats)) + (if extracted options h then {#hd ?cl#} else {#})
             = mset ?cl" by (rule m)
  next
    show "distinct (map fst ?cats)" by (rule d)
  next
    fix x
    assume x: "x \<in> set ?cats"
    obtain k1 b1 where x1: "x = (k1, b1)" by (cases x)
    have "\<forall>y\<in>set ?cats. case y of (k2, b2) \<Rightarrow> \<forall>r. r \<in> set b1 \<and> r \<in> set b2 \<longrightarrow> k1 = k2"
    proof
      fix y
      assume y: "y \<in> set ?cats"
      obtain k2 b2 where y1: "y = (k2, b2)" by (cases y)
      have "\<forall>r. r \<in> set b1 \<and> r \<in> set b2 \<longrightarrow> k1 = k2"
        using o x y unfolding x1 y1 by blast
      then show "case y of (k2, b2) \<Rightarrow> \<forall>r. r \<in> set b1 \<and> r \<in> set b2 \<longrightarrow> k1 = k2"
        unfolding y1 prod.case .
    qed
    then show "case x of (k1, b1) \<Rightarrow>
        \<forall>(k2, b2)\<in>set ?cats. \<forall>r. r \<in> set b1 \<and> r \<in> set b2 \<longrightarrow> k1 = k2"
      unfolding x1 prod.case .
  next
    show "(if extracted options h then price (?h (hd (cleaned_options options h))) else 0) \<noteq> 0
            \<longrightarrow> extracted options h"
      by simp
  qed
qed

theorem grouping_conserves_items_witness:
  "fst (group_optional_options [0, 1, 2, 3]
     (\<lambda>r. if r = 0 then \<lparr>description = ''Model XYZ'', price = 150000\<rparr>
          else if r = 1 then \<lparr>description = '' nan '', price = 1\<rparr>
          else if r = 2 then \<lparr>description = ''High speed spindle'', price = 3000\<rparr>
          else \<lparr>description = ''NaN banana'', price = 5000\<rparr>))
     = ([(''Spindle Options'', [2]), (''Other Options'', [3])], 150000)
   \<and> sum_list (map (\<lambda>(k, b). length b) [(''Spindle Options'', [2::nat]), (''Other Options'', [3])])
       + 1 = length [0::nat, 2, 3]"
proof -
  let ?h = "\<lambda>r::nat. if r = 0 then \<lparr>description = ''Model XYZ'', price = 150000\<rparr>
          else if r = 1 then \<lparr>description = '' nan '', price = 1\<rparr>
          else if r = 2 then \<lparr>description = ''High speed spindle'', price = 3000\<rparr>
          else \<lparr>description = ''NaN banana'', price = 5000\<rparr>"
  have g: "fst (group_optional_options [0, 1, 2, 3] ?h)
      = ([(''Spindle Options'', [2]), (''Other Options'', [3])], 150000)"
    by (simp add: eval_group)
  have x: "extracted [0, 1, 2, 3] ?h" by (simp add: eval_group)
  have f: "filter (\<lambda>r. clean_description (description (?h r)) \<noteq> []) [0, 1, 2, 3] = [0, 2, 3]"
    by (simp add: eval_group)
  from grouping_conserves_items [of "[0, 1, 2, 3]" ?h]
  have "sum_list (map (\<lambda>(k, b). length b) (fst (fst (group_optional_options [0, 1, 2, 3] ?h))))
          + (if extracted [0, 1, 2, 3] ?h then 1 else 0)
        = length (filter (\<lambda>r. clean_description (description (?h r)) \<noteq> []) [0, 1, 2, 3])"
    unfolding Let_def case_prod_beta by (rule conjunct1)
  then have "sum_list (map (\<lambda>(k, b). length b) [(''Spindle Options'', [2::nat]), (''Other Options'', [3])])
       + 1 = length [0::nat, 2, 3]"
    unfolding g f using x by simp
  with g show ?thesis by (rule conjI)
qed

text \<open>
  Claim C4. The first cleaned item, and only it, is tested: it is taken out as the base
  price exactly when its lower-cased description contains \<open>base price\<close> or \<open>model\<close>, or
  its price exceeds 100000 and its description has fewer than 3 words. Then its price is
  returned and the buckets hold the other cleaned items; otherwise 0 is returned and the
  buckets hold all cleaned items.
\<close>

theorem base_price_extraction:
  "(let ((cats, bp), h') = group_optional_options options h;
        cl = filter (\<lambda>r. clean_description (description (h r)) \<noteq> []) options;
        d = clean_description (description (h (hd cl)));
        p = price (h (hd cl));
        ext = (cl \<noteq> []
               \<and> (contains ''base price'' (lower d) \<or> contains ''model'' (lower d)
                  \<or> (p > 100000 \<and> length (split d) < 3)))
    in extracted options h = ext
       \<and> bp = (if ext then p else 0)
       \<and> mset (concat (map snd cats)) = mset (if ext then tl cl else cl))"
proof -
  let ?h = "fst (clean_options_loop options h [])"
  let ?cl = "filter (\<lambda>r. clean_description (description (h r)) \<noteq> []) options"
  let ?d = "clean_description (description (h (hd ?cl)))"
  let ?p = "price (h (hd ?cl))"
  let ?ext = "?cl \<noteq> [] \<and> (contains ''base price'' (lower ?d) \<or> contains ''model'' (lower ?d)
                  \<or> (?p > 100000 \<and> length (split ?d) < 3))"
  have cl: "cleaned_options options h = ?cl" by (rule cleaned_options_eq)
  have e: "extracted options h = ?ext"
    by (simp add: extracted_eq cl base_price_test_def)
  have p: "?cl \<noteq> [] \<Longrightarrow> price (?h (hd ?cl)) = ?p"
    using hd_cleaned_in_options [of options h] by (simp add: cl cleaned_item)
  have r: "remaining_options options h = (if ?ext then tl ?cl else ?cl)"
    by (simp only: remaining_options_def e cl)
  show ?thesis
    unfolding group_optional_options_eq Let_def prod.case
    using p by (simp add: mset_categorize_loop r e cl)
qed

theorem base_price_extraction_witness:
  "fst (group_optional_options [0, 1]
     (\<lambda>r. if r = 0 then \<lparr>description = ''Model XYZ'', price = 150000\<rparr>
          else \<lparr>description = ''Base price model B'', price = 200000\<rparr>))
     = ([(''Other Options'', [1])], 150000)
   \<and> fst (group_optional_options [0, 1]
     (\<lambda>r. if r = 0 then \<lparr>description = ''4th Axis'', price = 50000\<rparr>
          else \<lparr>description = ''Base price model B'', price = 200000\<rparr>))
     = ([(''Other Options'', [0, 1])], 0)
   \<and> extracted [0, 1]
     (\<lambda>r. if r = 0 then \<lparr>description = ''Model XYZ'', price = 150000\<rparr>
          else \<lparr>description = ''Base price model B'', price = 200000\<rparr>)
   \<and> \<not> extracted [0, 1]
     (\<lambda>r. if r = 0 then \<lparr>description = ''4th Axis'', price = 50000\<rparr>
          else \<lparr>description = ''Base price model B'', price = 200000\<rparr>)
   \<and> fst (group_optional_options [0] (\<lambda>r. \<lparr>description = ''VMC 500'', price = 150000\<rparr>))
     = ([], 150000)
   \<and> fst (group_optional_options [0]
       (\<lambda>r. \<lparr>description = ''Large machining centre'', price = 150000\<rparr>))
     = ([(''Other Options'', [0])], 0)"
proof -
  let ?h = "\<lambda>r::nat. if r = 0 then \<lparr>description = ''Model XYZ'', price = 150000\<rparr>
          else \<lparr>description = ''Base price model B'', price = 200000\<rparr>"
  let ?k = "\<lambda>r::nat. if r = 0 then \<lparr>description = ''4th Axis'', price = 50000\<rparr>
          else \<lparr>description = ''Base price model B'', price = 200000\<rparr>"
  have g: "fst (group_optional_options [0, 1] ?h) = ([(''Other Options'', [1])], 150000)"
    by (simp add: eval_group)
  have k: "fst (group_optional_options [0, 1] ?k) = ([(''Other Options'', [0, 1])], 0)"
    by (simp add: eval_group)
  have fh: "filter (\<lambda>r. clean_description (description (?h r)) \<noteq> []) [0, 1] = [0, 1]"
    by (simp add: eval_group)
  have fk: "filter (\<lambda>r. clean_description (description (?k r)) \<noteq> []) [0, 1] = [0, 1]"
    by (simp add: eval_group)
  have th: "contains ''model'' (lower (clean_description (description (?h 0))))"
    by (simp add: eval_group)
  have tk: "\<not> contains ''base price'' (lower (clean_description (description (?k 0))))
    \<and> \<not> contains ''model'' (lower (clean_description (description (?k 0))))
    \<and> \<not> price (?k 0) > 100000"
    by (simp add: eval_group)
  from base_price_extraction [of "[0, 1]" ?h]
  have "extracted [0, 1] ?h"
    unfolding Let_def case_prod_beta fh using th by simp
  moreover from base_price_extraction [of "[0, 1]" ?k]
  have "\<not> extracted [0, 1] ?k"
    unfolding Let_def case_prod_beta fk using tk by simp
  moreover have "fst (group_optional_options [0]
      (\<lambda>r. \<lparr>description = ''VMC 500'', price = 150000\<rparr>)) = ([], 150000)"
    by (simp add: eval_group)
  moreover have "fst (group_optional_options [0]
      (\<lambda>r. \<lparr>description = ''Large machining centre'', price = 150000\<rparr>))
     = ([(''Other Options'', [0])], 0)"
    by (simp add: eval_group)
  ultimately show ?thesis using g k by simp
qed

text \<open>
  Claim C10. When the first cleaned item passes the base-price test and its price is 0, it
  is taken out of the list that is categorised, the returned base price is 0, and the page
  uses the base price of the catalogue entry.
\<close>

theorem zero_priced_base_row:
  "(let ((cats, bp), h') = group_optional_options options h;
        cl = filter (\<lambda>r. clean_description (description (h r)) \<noteq> []) options
    in cl \<noteq> []
       \<and> base_price_test ((h (hd cl))\<lparr>description := clean_description (description (h (hd cl)))\<rparr>)
       \<and> price (h (hd cl)) = 0
       \<longrightarrow> bp = 0
           \<and> mset (concat (map snd cats)) = mset (tl cl)
           \<and> (hd cl \<notin> set (tl cl) \<longrightarrow> (\<forall>(k, b)\<in>set cats. hd cl \<notin> set b))
           \<and> base_price bp catalog_base_price = catalog_base_price)"
proof -
  let ?h = "fst (clean_options_loop options h [])"
  let ?cl = "filter (\<lambda>r. clean_description (description (h r)) \<noteq> []) options"
  let ?cats = "categorize_loop ?h (remaining_options options h) []"
  have cl: "cleaned_options options h = ?cl" by (rule cleaned_options_eq)
  {
    assume ne: "?cl \<noteq> []"
      and t: "base_price_test ((h (hd ?cl))\<lparr>description := clean_description (description (h (hd ?cl)))\<rparr>)"
      and z: "price (h (hd ?cl)) = 0"
    from ne t have e: "extracted options h" by (simp add: extracted_eq cl)
    then have r: "remaining_options options h = tl ?cl" by (simp add: remaining_options_def cl)
    have "price (?h (hd ?cl)) = 0"
      using hd_cleaned_in_options [of options h] ne z by (simp add: cl cleaned_item)
    with e have bp: "(if extracted options h then price (?h (hd (cleaned_options options h))) else 0) = 0"
      by (simp add: cl)
    have m: "mset (concat (map snd ?cats)) = mset (tl ?cl)"
      by (simp add: mset_categorize_loop r)
    have "set (concat (map snd ?cats)) = set (tl ?cl)"
      using m by (metis set_mset_mset)
    then have n: "hd ?cl \<notin> set (tl ?cl) \<Longrightarrow> \<forall>(k, b)\<in>set ?cats. hd ?cl \<notin> set b"
      by force
    note bp m n
  }
  then show ?thesis
    unfolding group_optional_options_eq Let_def prod.case
    by (simp add: base_price_def)
qed

theorem zero_priced_base_row_witness:
  "fst (group_optional_options [0, 1]
     (\<lambda>r. if r = 0 then \<lparr>description = ''Model XYZ'', price = 0\<rparr>
          else \<lparr>description = ''Coolant tank'', price = 900\<rparr>))
     = ([(''Coolant Systems'', [1])], 0)
   \<and> base_price 0 250000 = 250000"
proof -
  let ?h = "\<lambda>r::nat. if r = 0 then \<lparr>description = ''Model XYZ'', price = 0\<rparr>
          else \<lparr>description = ''Coolant tank'', price = 900\<rparr>"
  let ?cl = "filter (\<lambda>r. clean_description (description (?h r)) \<noteq> []) [0, 1]"
  have g: "fst (group_optional_options [0, 1] ?h) = ([(''Coolant Systems'', [1])], 0)"
    by (simp add: eval_group)
  have cl: "?cl = [0, 1]" by (simp add: eval_group)
  have "?cl \<noteq> []
     \<and> base_price_test ((?h (hd ?cl))\<lparr>description := clean_description (description (?h (hd ?cl)))\<rparr>)
     \<and> price (?h (hd ?cl)) = 0"
    unfolding cl by (simp add: eval_group)
  with zero_priced_base_row [of "[0, 1]" ?h 250000]
  have "base_price (snd (fst (group_optional_options [0, 1] ?h))) 250000 = 250000"
    unfolding Let_def case_prod_beta by blast
  then have "base_price 0 250000 = 250000" unfolding g by simp
  with g show ?thesis by (rule conjI)
qed

subsection \<open>The cleaning step and the store\<close>

lemma remove_nan_words_case:
  assumes "\<forall>t\<in>set (tokens d). lower t = ''nan'' \<longrightarrow> t = ''nan''"
  shows "remove_nan_words ic d = remove_nan_words False d"
proof -
  have "lower ''nan'' = ''nan''" by (simp add: lower_def)
  with assms have "\<forall>t\<in>set (tokens d). is_nan ic t = is_nan False t"
    by (auto simp: is_nan_def)
  then have "filter (\<lambda>t. \<not> is_nan ic t) (tokens d) = filter (\<lambda>t. \<not> is_nan False t) (tokens d)"
    by (intro filter_cong) auto
  then show ?thesis by (simp add: remove_nan_words_def)
qed

lemma clean_description_words:
  assumes "\<forall>t\<in>set (tokens d). lower t = ''nan'' \<longrightarrow> t = ''nan''"
  shows "clean_description d = strip (remove_nan_words ic d)"
  by (simp add: clean_description_def re_sub_nan_tokens remove_nan_words_case [OF assms, of ic])

text \<open>
  Claim C1, as stated, fails: the cleaning step deletes \<open>nan\<close> only as a whole word, so
  \<open>banana\<close> is kept as it is, where deleting \<open>nan\<close> anywhere would leave \<open>baa\<close>.
\<close>

theorem cleaning_step_counterexample:
  "description (snd (group_optional_options [0] (\<lambda>r. \<lparr>description = ''banana'', price = 1\<rparr>)) 0)
     = ''banana''
   \<and> strip (spec_sub_nan ''banana'') = ''baa''"
  by (simp add: eval_group)

text \<open>
  Claim C1, amended. The cleaning step deletes every whole word \<open>nan\<close> from the
  description (an occurrence inside a larger word stays), trims the result, stores it in the
  item, drops the items whose cleaned description is empty and keeps the order of the
  others. The statement is about descriptions in which no word spells \<open>nan\<close> with a
  capital letter, and then holds with and without regard to case.
\<close>

theorem cleaning_step_whole_word:
  assumes "\<forall>r\<in>set options. \<forall>t\<in>set (tokens (description (h r))). lower t = ''nan'' \<longrightarrow> t = ''nan''"
  shows "(let (h', cleaned) = clean_options_loop options h [] in
            (\<forall>r\<in>set options.
               description (h' r) = strip (remove_nan_words ic (description (h r))))
            \<and> cleaned = filter (\<lambda>r. strip (remove_nan_words ic (description (h r))) \<noteq> []) options)
         \<and> snd (group_optional_options options h) = fst (clean_options_loop options h [])"
proof -
  have w: "clean_description (description (h r)) = strip (remove_nan_words ic (description (h r)))"
    if "r \<in> set options" for r
    using assms that by (intro clean_description_words) blast
  then have "filter (\<lambda>r. clean_description (description (h r)) \<noteq> []) options
      = filter (\<lambda>r. strip (remove_nan_words ic (description (h r))) \<noteq> []) options"
    by (intro filter_cong) auto
  with w show ?thesis
    by (simp add: clean_options_loop_eq group_optional_options_eq)
qed

theorem cleaning_step_whole_word_witness:
  "clean_options_loop [0, 1, 2]
     (\<lambda>r. if r = 0 then \<lparr>description = '' nan '', price = 10\<rparr>
          else if r = 1 then \<lparr>description = ''nan banana nan-free  '', price = 20\<rparr>
          else \<lparr>description = ''titanium'', price = 30\<rparr>) []
   = ((\<lambda>r. if r = 0 then \<lparr>description = '''', price = 10\<rparr>
           else if r = 1 then \<lparr>description = ''banana -free'', price = 20\<rparr>
           else \<lparr>description = ''titanium'', price = 30\<rparr>), [1, 2])"
proof -
  let ?h = "\<lambda>r::nat. if r = 0 then \<lparr>description = '' nan '', price = 10\<rparr>
          else if r = 1 then \<lparr>description = ''nan banana nan-free  '', price = 20\<rparr>
          else \<lparr>description = ''titanium'', price = 30\<rparr>"
  have "\<forall>r\<in>set [0, 1, 2]. \<forall>t\<in>set (tokens (description (?h r))). lower t = ''nan'' \<longrightarrow> t = ''nan''"
    by (simp add: eval_text)
  from cleaning_step_whole_word [OF this, of True]
  have "snd (clean_options_loop [0, 1, 2] ?h []) = [1, 2]"
    by (simp add: eval_text remove_nan_words_def is_nan_def case_prod_beta)
  moreover have "fst (clean_options_loop [0, 1, 2] ?h [])
    = (\<lambda>r. if r = 0 then \<lparr>description = '''', price = 10\<rparr>
           else if r = 1 then \<lparr>description = ''banana -free'', price = 20\<rparr>
           else \<lparr>description = ''titanium'', price = 30\<rparr>)"
    by (rule ext) (simp add: eval_text)
  ultimately show ?thesis by (simp add: prod_eq_iff)
qed

text \<open>
  Claim C2, as stated, fails: the function assigns the cleaned description to the item it
  was given, so an item whose description needs cleaning is changed by the call.
\<close>

theorem store_changed_counterexample:
  "description (snd (group_optional_options [0]
      (\<lambda>r. \<lparr>description = '' 4th Axis nan'', price = 50000\<rparr>)) 0) = ''4th Axis''
   \<and> snd (group_optional_options [0] (\<lambda>r. \<lparr>description = '' 4th Axis nan'', price = 50000\<rparr>))
       \<noteq> (\<lambda>r. \<lparr>description = '' 4th Axis nan'', price = 50000\<rparr>)"
proof -
  let ?h = "\<lambda>r::nat. \<lparr>description = '' 4th Axis nan'', price = 50000\<rparr>"
  have d: "description (snd (group_optional_options [0] ?h) 0) = ''4th Axis''"
    by (simp add: eval_group)
  have "description (snd (group_optional_options [0] ?h) 0) \<noteq> description (?h 0)"
    unfolding d by simp
  then have "snd (group_optional_options [0] ?h) \<noteq> ?h" by metis
  with d show ?thesis by simp
qed

text \<open>
  Claim C2, amended. The call writes nothing but the \<open>description\<close> of the items of the
  input list, which becomes the cleaned description: prices are unchanged, items outside
  the list are unchanged, and when every description of the list is already clean the
  store after the call is the store before it.
\<close>

theorem only_descriptions_written:
  "(let h' = snd (group_optional_options options h) in
      (\<forall>r. price (h' r) = price (h r))
      \<and> (\<forall>r. r \<notin> set options \<longrightarrow> h' r = h r)
      \<and> (\<forall>r\<in>set options.
            h' r = (h r)\<lparr>description := clean_description (description (h r))\<rparr>)
      \<and> ((\<forall>r\<in>set options. clean_description (description (h r)) = description (h r))
           \<longrightarrow> h' = h))"
proof -
  let ?h = "fst (clean_options_loop options h [])"
  have 1: "price (?h r) = price (h r)" for r by (simp add: cleaned_store_eq)
  have 2: "r \<notin> set options \<Longrightarrow> ?h r = h r" for r by (simp add: cleaned_store_eq)
  have 3: "r \<in> set options \<Longrightarrow>
      ?h r = (h r)\<lparr>description := clean_description (description (h r))\<rparr>" for r
    by (rule cleaned_item)
  have 4: "?h = h" if "\<forall>r\<in>set options. clean_description (description (h r)) = description (h r)"
  proof
    fix r
    show "?h r = h r" using that 2 [of r] 3 [of r] by (cases "r \<in> set options") simp_all
  qed
  from 1 2 3 4 show ?thesis
    unfolding group_optional_options_eq Let_def snd_conv by blast
qed

theorem only_descriptions_written_witness:
  "snd (group_optional_options [0, 1]
     (\<lambda>r. if r = 0 then \<lparr>description = ''Coolant  tank nan '', price = 10\<rparr>
          else \<lparr>description = ''Probe'', price = 20\<rparr>))
   = (\<lambda>r. if r = 0 then \<lparr>description = ''Coolant  tank'', price = 10\<rparr>
          else \<lparr>description = ''Probe'', price = 20\<rparr>)
   \<and> snd (group_optional_options [1]
     (\<lambda>r. if r = 0 then \<lparr>description = ''Coolant  tank nan '', price = 10\<rparr>
          else \<lparr>description = ''Probe'', price = 20\<rparr>))
   = (\<lambda>r. if r = 0 then \<lparr>description = ''Coolant  tank nan '', price = 10\<rparr>
          else \<lparr>description = ''Probe'', price = 20\<rparr>)"
proof -
  let ?h = "\<lambda>r::nat. if r = 0 then \<lparr>description = ''Coolant  tank nan '', price = 10\<rparr>
          else \<lparr>description = ''Probe'', price = 20\<rparr>"
  have c: "\<forall>r\<in>set [1]. clean_description (description (?h r)) = description (?h r)"
    by (simp add: eval_text clean_description_def)
  from only_descriptions_written [of "[1]" ?h] c
  have a: "snd (group_optional_options [1] ?h) = ?h"
    unfolding Let_def by blast
  from only_descriptions_written [of "[0, 1]" ?h]
  have "\<forall>r. snd (group_optional_options [0, 1] ?h) r
          = (if r \<in> set [0, 1] then (?h r)\<lparr>description := clean_description (description (?h r))\<rparr>
             else ?h r)"
    unfolding Let_def by metis
  then have b: "snd (group_optional_options [0, 1] ?h)
      = (\<lambda>r. if r = 0 then \<lparr>description = ''Coolant  tank'', price = 10\<rparr>
          else \<lparr>description = ''Probe'', price = 20\<rparr>)"
    by (intro ext) (simp add: eval_text clean_description_def)
  from a b show ?thesis by simp
qed

section \<open>Properties of the page script\<close>







end
